theory Spec2Isabelle
  imports Main "HOL-Library.Monad_Syntax" "HOL-Library.Multiset"
    "HOL-Library.Char_ord" "HOL-Library.List_Lexorder" "HOL-Library.Sublist"
begin

section \<open>Inductive enumerators: binary strings, zero-free numbers, permutations\<close>

text \<open>
  The three Python modules are pure functions over unbounded integers, strings and
  lists. Integers are modelled as \<open>int\<close>, strings as \<open>string\<close>, lists as lists.
  Each generator recurses on an integer argument that it compares with \<open>0\<close> only by
  equality, so on a negative argument the recursion never reaches its base case. The
  generators are therefore defined with \<^theory_text>\<open>partial_function (option)\<close>: the value
  \<open>None\<close> stands for a call that does not return, \<open>Some xs\<close> for a call returning \<open>xs\<close>.
\<close>

subsection \<open>Module \<^verbatim>\<open>generate_binary_numbers.py\<close>\<close>

text \<open>
  \<^verbatim>\<open>[num + suffix for num in binary_nums for suffix in ["0", "1"]]\<close>:
  the outer loop runs over \<open>binary_nums\<close>, the inner one over the two suffixes.
\<close>

definition binary_step :: "string list \<Rightarrow> string list" where
  "binary_step binary_nums =
     concat (map (\<lambda>num. map (\<lambda>suffix. num @ suffix) [''0'', ''1'']) binary_nums)"

partial_function (option) generate_binary_nums :: "int \<Rightarrow> string list option" where
  "generate_binary_nums n =
     (if n = 0 then Some ['''']
      else do {
        binary_nums \<leftarrow> generate_binary_nums (n - 1);
        Some (binary_step binary_nums)
      })"

declare generate_binary_nums.simps [code]

subsection \<open>Module \<^verbatim>\<open>generate_n_digit_numbers.py\<close>\<close>

text \<open>
  The two nested \<^verbatim>\<open>for\<close> loops append to \<open>result\<close>; they are folds that thread the
  accumulator. \<^verbatim>\<open>range(1, 10)\<close> is the list \<open>[1..9]\<close>. The exponent \<open>n - 1\<close> is at
  least 1 wherever the loop body runs.
\<close>

definition no_zeros_step :: "int \<Rightarrow> int list \<Rightarrow> int list" where
  "no_zeros_step n prev_numbers =
     fold (\<lambda>digit result.
       fold (\<lambda>prev_num result.
         let base_num = 10 ^ nat (n - 1);
             curr_num = digit * base_num + prev_num
         in result @ [curr_num]) prev_numbers result) [1..9] []"

partial_function (option) generate_n_digit_numbers_no_zeros_recursive ::
    "int \<Rightarrow> int list option" where
  "generate_n_digit_numbers_no_zeros_recursive n =
     (if n = 0 then Some []
      else if n = 1 then Some [1, 2, 3, 4, 5, 6, 7, 8, 9]
      else do {
        prev_numbers \<leftarrow> generate_n_digit_numbers_no_zeros_recursive (n - 1);
        Some (no_zeros_step n prev_numbers)
      })"

declare generate_n_digit_numbers_no_zeros_recursive.simps [code]

text \<open>
  The inner \<^verbatim>\<open>while n > 0\<close> loop of \<open>filter_numbers_by_digit_sum\<close>, with its two
  variables. Python's \<^verbatim>\<open>%\<close> and \<^verbatim>\<open>//\<close> round towards minus infinity, as \<open>mod\<close> and
  \<open>div\<close> on \<open>int\<close> do.
\<close>

function digit_sum_loop :: "int \<Rightarrow> int \<Rightarrow> int" where
  "digit_sum_loop n digit_sum =
     (if n > 0 then digit_sum_loop (n div 10) (digit_sum + n mod 10) else digit_sum)"
  by pat_completeness auto
termination
  by (relation "measure (\<lambda>(n, digit_sum). nat n)") auto

declare digit_sum_loop.simps [simp del]

definition filter_numbers_by_digit_sum :: "int list \<Rightarrow> int \<Rightarrow> int list" where
  "filter_numbers_by_digit_sum numbers k =
     fold (\<lambda>num result.
       let digit_sum = digit_sum_loop num 0
       in if digit_sum = k then result @ [num] else result) numbers []"

definition generate_n_digit_numbers_summing_to_k :: "int \<Rightarrow> int \<Rightarrow> int list option" where
  "generate_n_digit_numbers_summing_to_k n k =
     do {
       numbers \<leftarrow> generate_n_digit_numbers_no_zeros_recursive n;
       Some (filter_numbers_by_digit_sum numbers k)
     }"

subsection \<open>Module \<^verbatim>\<open>generate_permutations.py\<close>\<close>

text \<open>
  Python slices never raise: \<^verbatim>\<open>word[:i]\<close> and \<^verbatim>\<open>word[i:]\<close> clamp their bound to the
  word, and a negative bound counts from the end. Indexing \<^verbatim>\<open>word[i]\<close> raises
  \<open>IndexError\<close> outside \<open>-len(word) \<le> i < len(word)\<close>; its result is a string of one
  character.
\<close>

datatype py_error = IndexError

definition slice_to :: "string \<Rightarrow> int \<Rightarrow> string" where
  "slice_to word i =
     (if i < 0 then take (nat (int (length word) + i)) word else take (nat i) word)"

definition slice_from :: "string \<Rightarrow> int \<Rightarrow> string" where
  "slice_from word i =
     (if i < 0 then drop (nat (int (length word) + i)) word else drop (nat i) word)"

definition index :: "string \<Rightarrow> int \<Rightarrow> py_error + string" where
  "index word i =
     (let n = int (length word); j = (if i < 0 then n + i else i)
      in if 0 \<le> j \<and> j < n then Inr [word ! nat j] else Inl IndexError)"

text \<open>
  \<^verbatim>\<open>[word[:pos] + ch + word[pos:] for pos in range(len(word) + 1)]\<close>; \<open>ch\<close> is any
  string, in the driver a string of one character.
\<close>

definition interpolate :: "string \<Rightarrow> string \<Rightarrow> string list" where
  "interpolate ch word =
     map (\<lambda>pos. slice_to word (int pos) @ ch @ slice_from word (int pos))
       [0 ..< length word + 1]"

text \<open>
  The driver evaluates \<open>curr_word\<close>, then the recursive call, and only then \<open>word[pos]\<close>,
  which is where an \<open>IndexError\<close> can arise; an error of the recursive call propagates.
\<close>

definition interpolate_all :: "string \<Rightarrow> string list \<Rightarrow> string list" where
  "interpolate_all ch perms = concat (map (\<lambda>perm. interpolate ch perm) perms)"

partial_function (option) generate_permutations ::
    "string \<Rightarrow> int \<Rightarrow> (py_error + string list) option" where
  "generate_permutations word pos =
     (if pos = 0 then Some (Inr [word])
      else do {
        let curr_word = slice_to word pos @ slice_from word (pos + 1);
        r \<leftarrow> generate_permutations curr_word (pos - 1);
        (case r of
           Inl e \<Rightarrow> Some (Inl e)
         | Inr perms \<Rightarrow>
             (case index word pos of
                Inl e \<Rightarrow> Some (Inl e)
              | Inr ch \<Rightarrow> Some (Inr (interpolate_all ch perms))))
      })"

declare generate_permutations.simps [code]

subsection \<open>The same bodies under a bound on nested calls\<close>

text \<open>
  To speak about recursion depth, each generator is also run with a budget: the first
  argument is the number of nested recursive calls still allowed, and a call that needs
  one more returns \<open>None\<close>. The bodies are those above.
\<close>

fun generate_binary_nums_within :: "nat \<Rightarrow> int \<Rightarrow> string list option" where
  "generate_binary_nums_within 0 n = (if n = 0 then Some [''''] else None)"
| "generate_binary_nums_within (Suc depth) n =
     (if n = 0 then Some ['''']
      else do {
        binary_nums \<leftarrow> generate_binary_nums_within depth (n - 1);
        Some (binary_step binary_nums)
      })"

fun generate_n_digit_numbers_no_zeros_recursive_within :: "nat \<Rightarrow> int \<Rightarrow> int list option" where
  "generate_n_digit_numbers_no_zeros_recursive_within 0 n =
     (if n = 0 then Some []
      else if n = 1 then Some [1, 2, 3, 4, 5, 6, 7, 8, 9]
      else None)"
| "generate_n_digit_numbers_no_zeros_recursive_within (Suc depth) n =
     (if n = 0 then Some []
      else if n = 1 then Some [1, 2, 3, 4, 5, 6, 7, 8, 9]
      else do {
        prev_numbers \<leftarrow> generate_n_digit_numbers_no_zeros_recursive_within depth (n - 1);
        Some (no_zeros_step n prev_numbers)
      })"

fun generate_permutations_within ::
    "nat \<Rightarrow> string \<Rightarrow> int \<Rightarrow> (py_error + string list) option" where
  "generate_permutations_within 0 word pos =
     (if pos = 0 then Some (Inr [word]) else None)"
| "generate_permutations_within (Suc depth) word pos =
     (if pos = 0 then Some (Inr [word])
      else do {
        let curr_word = slice_to word pos @ slice_from word (pos + 1);
        r \<leftarrow> generate_permutations_within depth curr_word (pos - 1);
        (case r of
           Inl e \<Rightarrow> Some (Inl e)
         | Inr perms \<Rightarrow>
             (case index word pos of
                Inl e \<Rightarrow> Some (Inl e)
              | Inr ch \<Rightarrow> Some (Inr (interpolate_all ch perms))))
      })"

subsection \<open>Notions of the specification\<close>

text \<open>
  The specification's inductive step for binary strings, in its own words: \<open>S0\<close> is each
  element of \<open>S\<close> with \<open>0\<close> appended, \<open>S1\<close> each element with \<open>1\<close> appended, and the
  result is \<open>S0\<close> followed by \<open>S1\<close>.
\<close>

definition S0_then_S1 :: "string list \<Rightarrow> string list" where
  "S0_then_S1 S = map (\<lambda>s. s @ ''0'') S @ map (\<lambda>s. s @ ''1'') S"

text \<open>
  The digit of a non-negative integer at decimal position \<open>i\<close> (position 0 is the units
  digit), and the sum of its base-10 digits. A non-negative \<open>x\<close> is below \<open>10 ^ nat x\<close>, so
  every position from \<open>nat x\<close> on holds the digit 0 and the sum over the positions below
  \<open>nat x\<close> is the sum of all digits.
\<close>

definition decimal_digit :: "int \<Rightarrow> nat \<Rightarrow> int" where
  "decimal_digit x i = (x div 10 ^ i) mod 10"

definition decimal_digit_sum :: "int \<Rightarrow> int" where
  "decimal_digit_sum x = sum_list (map (decimal_digit x) [0 ..< nat x])"

section \<open>Binary strings\<close>

lemma binary_step_Nil: "binary_step [] = []"
  by (simp add: binary_step_def)

lemma binary_step_Cons: "binary_step (s # xs) = (s @ ''0'') # (s @ ''1'') # binary_step xs"
  by (simp add: binary_step_def)

lemma length_binary_step: "length (binary_step xs) = 2 * length xs"
  by (induction xs) (simp_all add: binary_step_Nil binary_step_Cons)

lemma set_binary_step:
  "set (binary_step xs) = (\<lambda>s. s @ ''0'') ` set xs \<union> (\<lambda>s. s @ ''1'') ` set xs"
  by (induction xs) (auto simp: binary_step_Nil binary_step_Cons)

lemma less_append_same_length:
  fixes s t :: string
  assumes "s < t" "length s = length t"
  shows "s @ a < t @ b"
  using assms by (simp add: list_less_def lexord_sufI)

lemma append_zero_less_one: "s @ ''0'' < s @ ''1''"
  by (simp add: list_less_def lexord_append_leftI)

lemma sorted_binary_step:
  "sorted_wrt (<) xs \<Longrightarrow> \<forall>s\<in>set xs. length s = m \<Longrightarrow> sorted_wrt (<) (binary_step xs)"
proof (induction xs)
  case Nil
  show ?case by (simp add: binary_step_Nil)
next
  case (Cons s xs)
  have later: "s @ a < u" if "u \<in> set (binary_step xs)" for u a
  proof -
    from that obtain t b where t: "t \<in> set xs" "u = t @ b"
      by (auto simp: set_binary_step)
    with Cons.prems have "s < t" "length s = length t" by auto
    then show ?thesis unfolding t by (rule less_append_same_length)
  qed
  from Cons have "sorted_wrt (<) (binary_step xs)" by simp
  with later show ?case
    by (simp add: binary_step_Cons append_zero_less_one)
qed

lemma binary_strings_Suc:
  assumes "set xs = {s. length s = m \<and> set s \<subseteq> {CHR ''0'', CHR ''1''}}"
  shows "set (binary_step xs) = {s. length s = Suc m \<and> set s \<subseteq> {CHR ''0'', CHR ''1''}}"
proof (intro set_eqI iffI)
  fix u assume "u \<in> set (binary_step xs)"
  then show "u \<in> {s. length s = Suc m \<and> set s \<subseteq> {CHR ''0'', CHR ''1''}}"
    using assms by (auto simp: set_binary_step)
next
  fix u assume "u \<in> {s. length s = Suc m \<and> set s \<subseteq> {CHR ''0'', CHR ''1''}}"
  then have len: "length u = Suc m" and sub: "set u \<subseteq> {CHR ''0'', CHR ''1''}" by auto
  from len have ne: "u \<noteq> []" by auto
  then have u: "u = butlast u @ [last u]" by simp
  have "set (butlast u) \<subseteq> set u" by (auto dest: in_set_butlastD)
  with len sub have "butlast u \<in> set xs" by (simp add: assms)
  moreover from ne sub have "last u = CHR ''0'' \<or> last u = CHR ''1''"
    using last_in_set by blast
  ultimately show "u \<in> set (binary_step xs)"
    using u by (auto simp: set_binary_step image_iff)
qed

lemma generate_binary_nums_0: "generate_binary_nums 0 = Some ['''']"
  by (simp add: generate_binary_nums.simps)

lemma generate_binary_nums_Suc:
  "generate_binary_nums (int (Suc m)) = generate_binary_nums (int m) \<bind> (\<lambda>S. Some (binary_step S))"
  by (subst generate_binary_nums.simps) simp

lemma generate_binary_nums_nat:
  "\<exists>xs. generate_binary_nums (int m) = Some xs \<and> length xs = 2 ^ m \<and> sorted_wrt (<) xs \<and>
     set xs = {s. length s = m \<and> set s \<subseteq> {CHR ''0'', CHR ''1''}}"
proof (induction m)
  case 0
  show ?case by (auto simp: generate_binary_nums_0)
next
  case (Suc m)
  then obtain xs where xs: "generate_binary_nums (int m) = Some xs" "length xs = 2 ^ m"
    "sorted_wrt (<) xs" "set xs = {s. length s = m \<and> set s \<subseteq> {CHR ''0'', CHR ''1''}}"
    by blast
  have "generate_binary_nums (int (Suc m)) = Some (binary_step xs)"
    unfolding generate_binary_nums_Suc xs(1) by simp
  moreover have "length (binary_step xs) = 2 ^ Suc m"
    by (simp add: length_binary_step xs(2))
  moreover have "sorted_wrt (<) (binary_step xs)"
    using xs(3) by (rule sorted_binary_step [where m = m]) (simp add: xs(4))
  moreover note binary_strings_Suc [OF xs(4)]
  ultimately show ?case by blast
qed

text \<open>
  Claim C1. For every \<open>n \<ge> 0\<close> the call returns, and its result is the list of all
  \<open>2 ^ n\<close> strings of length \<open>n\<close> over the characters \<open>0\<close> and \<open>1\<close>: it has \<open>2 ^ n\<close>
  elements, each of length \<open>n\<close>, pairwise distinct, and strictly increasing in the
  lexicographic order of strings (characters compared by code). For \<open>n = 0, 1, 2\<close> the
  results are \<open>[""]\<close>, \<open>["0", "1"]\<close> and \<open>["00", "01", "10", "11"]\<close>.
\<close>

theorem generate_binary_nums_all_strings_in_order:
  "(0 \<le> n \<longrightarrow>
      (\<exists>xs. generate_binary_nums n = Some xs \<and>
         length xs = 2 ^ nat n \<and>
         (\<forall>s\<in>set xs. length s = nat n) \<and>
         distinct xs \<and>
         set xs = {s. length s = nat n \<and> set s \<subseteq> {CHR ''0'', CHR ''1''}} \<and>
         sorted_wrt (<) xs)) \<and>
   generate_binary_nums 0 = Some [''''] \<and>
   generate_binary_nums 1 = Some [''0'', ''1''] \<and>
   generate_binary_nums 2 = Some [''00'', ''01'', ''10'', ''11'']"
proof (intro conjI impI)
  assume "0 \<le> n"
  then have n: "n = int (nat n)" by simp
  from generate_binary_nums_nat [of "nat n"] obtain xs where
    xs: "generate_binary_nums (int (nat n)) = Some xs" "length xs = 2 ^ nat n"
      "sorted_wrt (<) xs"
      "set xs = {s. length s = nat n \<and> set s \<subseteq> {CHR ''0'', CHR ''1''}}"
    by blast
  from xs(3) have "distinct xs" by (simp add: strict_sorted_iff)
  moreover from xs(4) have "\<forall>s\<in>set xs. length s = nat n" by simp
  moreover from xs(1) n have "generate_binary_nums n = Some xs" by simp
  ultimately show "\<exists>xs. generate_binary_nums n = Some xs \<and>
         length xs = 2 ^ nat n \<and>
         (\<forall>s\<in>set xs. length s = nat n) \<and>
         distinct xs \<and>
         set xs = {s. length s = nat n \<and> set s \<subseteq> {CHR ''0'', CHR ''1''}} \<and>
         sorted_wrt (<) xs"
    using xs(2,3,4) by blast
next
  show "generate_binary_nums 0 = Some ['''']"
    by (rule generate_binary_nums_0)
next
  show "generate_binary_nums 1 = Some [''0'', ''1'']"
    by code_simp
next
  show "generate_binary_nums 2 = Some [''00'', ''01'', ''10'', ''11'']"
    by code_simp
qed

theorem generate_binary_nums_all_strings_in_order_witness:
  "(0::int) \<le> 3 \<and>
   generate_binary_nums 3 =
     Some [''000'', ''001'', ''010'', ''011'', ''100'', ''101'', ''110'', ''111''] \<and>
   length [''000'', ''001'', ''010'', ''011'', ''100'', ''101'', ''110'', ''111''] = 2 ^ nat 3 \<and>
   list_all (\<lambda>s. length s = nat 3)
     [''000'', ''001'', ''010'', ''011'', ''100'', ''101'', ''110'', ''111''] \<and>
   distinct [''000'', ''001'', ''010'', ''011'', ''100'', ''101'', ''110'', ''111''] \<and>
   set [''000'', ''001'', ''010'', ''011'', ''100'', ''101'', ''110'', ''111''] =
     {s. length s = nat 3 \<and> set s \<subseteq> {CHR ''0'', CHR ''1''}} \<and>
   sorted_wrt (<) [''000'', ''001'', ''010'', ''011'', ''100'', ''101'', ''110'', ''111'']"
proof -
  have eval: "generate_binary_nums 3 =
     Some [''000'', ''001'', ''010'', ''011'', ''100'', ''101'', ''110'', ''111'']"
    by code_simp
  have "(0::int) \<le> 3" by simp
  with generate_binary_nums_all_strings_in_order [of 3] obtain xs where
    "generate_binary_nums 3 = Some xs" "length xs = 2 ^ nat 3"
    "\<forall>s\<in>set xs. length s = nat 3" "distinct xs"
    "set xs = {s. length s = nat 3 \<and> set s \<subseteq> {CHR ''0'', CHR ''1''}}"
    "sorted_wrt (<) xs"
    by blast
  with eval show ?thesis by (simp add: list_all_iff)
qed

lemma binary_step_append: "binary_step (xs @ ys) = binary_step xs @ binary_step ys"
  by (simp add: binary_step_def)

lemma binary_step_map_Cons: "binary_step (map ((#) c) xs) = map ((#) c) (binary_step xs)"
  by (induction xs) (simp_all add: binary_step_Nil binary_step_Cons)

lemma mset_binary_step: "mset (binary_step S) = mset (S0_then_S1 S)"
  by (induction S) (simp_all add: binary_step_Nil binary_step_Cons S0_then_S1_def)

lemma generate_binary_nums_prepend:
  "\<exists>S. generate_binary_nums (int m) = Some S \<and>
     generate_binary_nums (int (Suc m)) = Some (binary_step S) \<and>
     binary_step S = map ((#) CHR ''0'') S @ map ((#) CHR ''1'') S"
proof (induction m)
  case 0
  have "generate_binary_nums (int (Suc 0)) = Some (binary_step [''''])"
    unfolding generate_binary_nums_Suc by (simp add: generate_binary_nums_0)
  then show ?case
    by (simp add: generate_binary_nums_0 binary_step_Cons binary_step_Nil)
next
  case (Suc m)
  then obtain S where S: "generate_binary_nums (int m) = Some S"
    "generate_binary_nums (int (Suc m)) = Some (binary_step S)"
    "binary_step S = map ((#) CHR ''0'') S @ map ((#) CHR ''1'') S"
    by blast
  let ?T = "binary_step S"
  have "generate_binary_nums (int (Suc (Suc m))) = Some (binary_step ?T)"
    unfolding generate_binary_nums_Suc [of "Suc m"] S(2) by simp
  moreover have "binary_step ?T = map ((#) CHR ''0'') ?T @ map ((#) CHR ''1'') ?T"
  proof -
    have "binary_step ?T = binary_step (map ((#) CHR ''0'') S @ map ((#) CHR ''1'') S)"
      by (simp only: S(3) [symmetric])
    also have "\<dots> = map ((#) CHR ''0'') ?T @ map ((#) CHR ''1'') ?T"
      by (simp only: binary_step_append binary_step_map_Cons)
    finally show ?thesis .
  qed
  ultimately show ?case using S(2) by blast
qed

text \<open>
  Claim C2 as stated, that \<open>generate_binary_nums n\<close> is \<open>S0\<close> followed by \<open>S1\<close>, fails at
  \<open>n = 2\<close>: for \<open>S = ["0", "1"]\<close> the list \<open>S0\<close> followed by \<open>S1\<close> is
  \<open>["00", "10", "01", "11"]\<close>, while the call returns \<open>["00", "01", "10", "11"]\<close>.
\<close>

theorem generate_binary_nums_not_S0_then_S1:
  "generate_binary_nums (2 - 1) = Some [''0'', ''1''] \<and>
   S0_then_S1 [''0'', ''1''] = [''00'', ''10'', ''01'', ''11''] \<and>
   generate_binary_nums 2 = Some [''00'', ''01'', ''10'', ''11''] \<and>
   generate_binary_nums 2 \<noteq> Some (S0_then_S1 [''0'', ''1''])"
proof -
  have a: "generate_binary_nums (2 - 1) = Some [''0'', ''1'']" by code_simp
  have b: "S0_then_S1 [''0'', ''1''] = [''00'', ''10'', ''01'', ''11'']"
    by (simp add: S0_then_S1_def)
  have c: "generate_binary_nums 2 = Some [''00'', ''01'', ''10'', ''11'']" by code_simp
  show ?thesis unfolding a b c by simp
qed

text \<open>
  Claim C2, amended. For every \<open>n \<ge> 1\<close>, with \<open>S\<close> the result for \<open>n - 1\<close>: the result
  for \<open>n\<close> replaces each element \<open>s\<close> of \<open>S\<close>, in the order of \<open>S\<close>, by \<open>s + "0"\<close>
  immediately followed by \<open>s + "1"\<close>. This list has the same strings with the same
  multiplicities as \<open>S0\<close> followed by \<open>S1\<close>, and it equals the list of every element of
  \<open>S\<close> with \<open>0\<close> put in front followed by the list of every element of \<open>S\<close> with \<open>1\<close> put
  in front.
\<close>

theorem generate_binary_nums_inductive_step:
  "1 \<le> n \<Longrightarrow>
     \<exists>S. generate_binary_nums (n - 1) = Some S \<and>
       generate_binary_nums n = Some (concat (map (\<lambda>s. [s @ ''0'', s @ ''1'']) S)) \<and>
       generate_binary_nums n = Some (map (\<lambda>s. ''0'' @ s) S @ map (\<lambda>s. ''1'' @ s) S) \<and>
       mset (concat (map (\<lambda>s. [s @ ''0'', s @ ''1'']) S)) = mset (S0_then_S1 S)"
proof -
  assume "1 \<le> n"
  then have n: "n - 1 = int (nat (n - 1))" "n = int (Suc (nat (n - 1)))" by simp_all
  from generate_binary_nums_prepend [of "nat (n - 1)"] obtain S where
    S: "generate_binary_nums (int (nat (n - 1))) = Some S"
    "generate_binary_nums (int (Suc (nat (n - 1)))) = Some (binary_step S)"
    "binary_step S = map ((#) CHR ''0'') S @ map ((#) CHR ''1'') S"
    by blast
  have step: "binary_step S = concat (map (\<lambda>s. [s @ ''0'', s @ ''1'']) S)"
    by (simp add: binary_step_def)
  have "generate_binary_nums (n - 1) = Some S"
    using S(1) n(1) by simp
  moreover have "generate_binary_nums n = Some (concat (map (\<lambda>s. [s @ ''0'', s @ ''1'']) S))"
    using S(2) n(2) step by simp
  moreover have "generate_binary_nums n = Some (map (\<lambda>s. ''0'' @ s) S @ map (\<lambda>s. ''1'' @ s) S)"
    using S(2,3) n(2) by simp
  moreover have "mset (concat (map (\<lambda>s. [s @ ''0'', s @ ''1'']) S)) = mset (S0_then_S1 S)"
    using mset_binary_step [of S] step by simp
  ultimately show ?thesis by blast
qed

theorem generate_binary_nums_inductive_step_witness:
  "(1::int) \<le> 2 \<and> generate_binary_nums (2 - 1) = Some [''0'', ''1''] \<and>
   generate_binary_nums 2 = Some (concat (map (\<lambda>s. [s @ ''0'', s @ ''1'']) [''0'', ''1''])) \<and>
   generate_binary_nums 2 = Some (map (\<lambda>s. ''0'' @ s) [''0'', ''1''] @ map (\<lambda>s. ''1'' @ s) [''0'', ''1'']) \<and>
   mset (concat (map (\<lambda>s. [s @ ''0'', s @ ''1'']) [''0'', ''1''])) = mset (S0_then_S1 [''0'', ''1''])"
proof -
  have eval: "generate_binary_nums (2 - 1) = Some [''0'', ''1'']" by code_simp
  have "(1::int) \<le> 2" by simp
  from generate_binary_nums_inductive_step [OF this] eval show ?thesis
    by auto
qed

section \<open>Zero-free numbers and digit sums\<close>

lemma upto_1_9: "[1..9] = [1, 2, 3, 4, 5, 6, 7, 8, (9::int)]"
  by code_simp

lemma fold_snoc_map: "fold (\<lambda>x result. result @ [f x]) xs acc = acc @ map f xs"
  by (induction xs arbitrary: acc) simp_all

lemma fold_append_concat: "fold (\<lambda>x result. result @ g x) xs acc = acc @ concat (map g xs)"
  by (induction xs arbitrary: acc) simp_all

lemma no_zeros_step_eq:
  "no_zeros_step n prev_numbers =
     concat (map (\<lambda>digit. map (\<lambda>prev_num. digit * 10 ^ nat (n - 1) + prev_num) prev_numbers) [1..9])"
proof -
  have inner: "fold (\<lambda>prev_num result.
         let base_num = 10 ^ nat (n - 1); curr_num = digit * base_num + prev_num
         in result @ [curr_num]) prev_numbers result
     = result @ map (\<lambda>prev_num. digit * 10 ^ nat (n - 1) + prev_num) prev_numbers"
    for digit :: int and result
    using fold_snoc_map [of "\<lambda>prev_num. digit * 10 ^ nat (n - 1) + prev_num" prev_numbers result]
    by (simp add: Let_def)
  show ?thesis
    unfolding no_zeros_step_def inner
    using fold_append_concat [of "\<lambda>digit. map (\<lambda>prev_num. digit * 10 ^ nat (n - 1) + prev_num) prev_numbers" "[1..9]" "[]"]
    by simp
qed

lemma length_no_zeros_step: "length (no_zeros_step n prev_numbers) = 9 * length prev_numbers"
  by (simp add: no_zeros_step_eq upto_1_9)

lemma set_no_zeros_step:
  "set (no_zeros_step n prev_numbers) =
     {d * 10 ^ nat (n - 1) + p | d p. d \<in> {1..9} \<and> p \<in> set prev_numbers}"
  by (auto simp: no_zeros_step_eq) blast

lemma sorted_blocks:
  fixes B :: int
  assumes "sorted_wrt (<) ds" "sorted_wrt (<) ps" "\<forall>p\<in>set ps. 0 \<le> p \<and> p < B"
  shows "sorted_wrt (<) (concat (map (\<lambda>d. map (\<lambda>p. d * B + p) ps) ds))"
  using assms(1)
proof (induction ds)
  case Nil
  show ?case by simp
next
  case (Cons d ds)
  have block: "sorted_wrt (<) (map (\<lambda>p. d * B + p) ps)"
    using assms(2) by (simp add: sorted_wrt_map)
  have across: "d * B + p < d' * B + p'"
    if "d' \<in> set ds" "p \<in> set ps" "p' \<in> set ps" for d' p p'
  proof -
    from Cons.prems that have "d + 1 \<le> d'" by auto
    then have "(d + 1) * B \<le> d' * B"
      using assms(3) that(2) by (intro mult_right_mono) auto
    moreover have "p < B" "0 \<le> p'" using assms(3) that by auto
    ultimately show ?thesis by (simp add: algebra_simps)
  qed
  from Cons have "sorted_wrt (<) (concat (map (\<lambda>d. map (\<lambda>p. d * B + p) ps) ds))" by simp
  with block across show ?case
    by (auto simp: sorted_wrt_append)
qed

lemma sorted_no_zeros_step:
  assumes "sorted_wrt (<) ps" "\<forall>p\<in>set ps. 0 \<le> p \<and> p < 10 ^ nat (n - 1)"
  shows "sorted_wrt (<) (no_zeros_step n ps)"
  unfolding no_zeros_step_eq
  by (rule sorted_blocks) (use assms in \<open>simp_all add: upto_1_9\<close>)

lemma div_add_multiple:
  "(p + (d * 10 ^ j * 10) * 10 ^ i) div 10 ^ i = p div 10 ^ i + d * 10 ^ j * (10::int)"
proof -
  have "(10::int) ^ i \<noteq> 0" by simp
  from div_mult_self1 [OF this, of p "d * 10 ^ j * 10"]
  show ?thesis by (simp only: add.commute)
qed

lemma mod_add_multiple: "(a + d * 10 ^ j * (10::int)) mod 10 = a mod 10"
  using mod_mult_self1 [of a "d * 10 ^ j" 10] by (simp only:)

lemma decimal_digit_shift_low:
  assumes "i < m"
  shows "decimal_digit (d * 10 ^ m + p) i = decimal_digit p i"
proof -
  define j where "j = m - Suc i"
  with assms have m: "m = i + Suc j" by simp
  have "(10::int) ^ (i + Suc j) = (10 ^ j * 10) * 10 ^ i"
    by (simp add: power_add)
  then have pw: "(10::int) ^ m = (10 ^ j * 10) * 10 ^ i"
    by (simp only: m)
  have "d * 10 ^ m + p = p + (d * 10 ^ j * 10) * 10 ^ i"
    by (simp only: pw mult.assoc add.commute)
  then have "(d * 10 ^ m + p) div 10 ^ i = p div 10 ^ i + d * 10 ^ j * 10"
    by (simp only: div_add_multiple)
  then show ?thesis
    unfolding decimal_digit_def by (simp only: mod_add_multiple)
qed

lemma decimal_digit_top:
  assumes "0 \<le> p" "p < 10 ^ m" "0 \<le> d" "d \<le> 9"
  shows "decimal_digit (d * 10 ^ m + p) m = d"
proof -
  have "(d * 10 ^ m + p) div 10 ^ m = d"
    using assms(1,2) by (simp add: div_pos_pos_trivial)
  with assms(3,4) show ?thesis
    by (simp add: decimal_digit_def)
qed

lemma no_zeros_0: "generate_n_digit_numbers_no_zeros_recursive 0 = Some []"
  by (subst generate_n_digit_numbers_no_zeros_recursive.simps) simp

lemma no_zeros_1:
  "generate_n_digit_numbers_no_zeros_recursive 1 = Some [1, 2, 3, 4, 5, 6, 7, 8, 9]"
  by (subst generate_n_digit_numbers_no_zeros_recursive.simps) simp

lemma no_zeros_rec:
  "2 \<le> n \<Longrightarrow> generate_n_digit_numbers_no_zeros_recursive n =
     generate_n_digit_numbers_no_zeros_recursive (n - 1) \<bind> (\<lambda>prev. Some (no_zeros_step n prev))"
  by (subst generate_n_digit_numbers_no_zeros_recursive.simps) simp

lemma no_zeros_step_member:
  assumes x: "x \<in> set (no_zeros_step (int (Suc m)) ps)"
    and ps: "\<forall>p\<in>set ps. 0 \<le> p \<and> p < 10 ^ m \<and> (\<forall>i<m. 1 \<le> decimal_digit p i \<and> decimal_digit p i \<le> 9)"
  shows "10 ^ m \<le> x \<and> x < 10 ^ Suc m \<and> (\<forall>i<Suc m. 1 \<le> decimal_digit x i \<and> decimal_digit x i \<le> 9)"
proof -
  from x obtain d p where dp: "x = d * 10 ^ m + p" "1 \<le> d" "d \<le> 9" "p \<in> set ps"
    by (auto simp: set_no_zeros_step)
  from ps dp(4) have p: "0 \<le> p" "p < 10 ^ m"
    and pd: "\<And>i. i < m \<Longrightarrow> 1 \<le> decimal_digit p i \<and> decimal_digit p i \<le> 9"
    by auto
  define B :: int where "B = 10 ^ m"
  have "1 * B \<le> d * B" "d * B \<le> 9 * B"
    using dp(2,3) by (auto intro!: mult_right_mono simp: B_def)
  with p have "B \<le> d * B + p" "d * B + p < 10 * B"
    unfolding B_def [symmetric] by linarith+
  then have lo: "10 ^ m \<le> x" and hi: "x < 10 ^ Suc m"
    by (simp_all add: dp(1) B_def)
  have "1 \<le> decimal_digit x i \<and> decimal_digit x i \<le> 9" if "i < Suc m" for i
  proof (cases "i = m")
    case True
    have "decimal_digit x m = d"
      unfolding dp(1) using p dp(2,3) by (intro decimal_digit_top) simp_all
    with dp(2,3) True show ?thesis by simp
  next
    case False
    with that have "i < m" by simp
    then show ?thesis
      unfolding dp(1) by (simp only: decimal_digit_shift_low pd)
  qed
  with lo hi show ?thesis by blast
qed


lemma no_zeros_invariant:
  "1 \<le> m \<Longrightarrow> \<exists>xs. generate_n_digit_numbers_no_zeros_recursive (int m) = Some xs \<and>
     length xs = 9 ^ m \<and> sorted_wrt (<) xs \<and>
     (\<forall>x\<in>set xs. 10 ^ (m - 1) \<le> x \<and> x < 10 ^ m \<and>
        (\<forall>i<m. 1 \<le> decimal_digit x i \<and> decimal_digit x i \<le> 9))"
proof (induction m rule: nat_induct_at_least)
  case base
  have "\<forall>x\<in>set [1, 2, 3, 4, 5, 6, 7, 8, 9::int]. 1 \<le> decimal_digit x 0 \<and> decimal_digit x 0 \<le> 9"
    by (simp add: decimal_digit_def)
  then show ?case
    by (simp add: no_zeros_1)
next
  case (Suc m)
  then obtain xs where xs: "generate_n_digit_numbers_no_zeros_recursive (int m) = Some xs"
    "length xs = 9 ^ m" "sorted_wrt (<) xs"
    and mem: "\<forall>x\<in>set xs. 10 ^ (m - 1) \<le> x \<and> x < 10 ^ m \<and>
        (\<forall>i<m. 1 \<le> decimal_digit x i \<and> decimal_digit x i \<le> 9)"
    by blast
  have nonneg: "0 \<le> x" if "x \<in> set xs" for x
  proof -
    have "(0::int) \<le> 10 ^ (m - 1)" by simp
    also have "\<dots> \<le> x" using mem that by blast
    finally show ?thesis .
  qed
  have ps: "\<forall>p\<in>set xs. 0 \<le> p \<and> p < 10 ^ m \<and>
      (\<forall>i<m. 1 \<le> decimal_digit p i \<and> decimal_digit p i \<le> 9)"
    using mem nonneg by blast
  let ?ys = "no_zeros_step (int (Suc m)) xs"
  have "2 \<le> int (Suc m)" using Suc.hyps by simp
  from no_zeros_rec [OF this]
  have "generate_n_digit_numbers_no_zeros_recursive (int (Suc m)) = Some ?ys"
    by (simp add: xs(1))
  moreover have "length ?ys = 9 ^ Suc m"
    by (simp add: length_no_zeros_step xs(2))
  moreover have "sorted_wrt (<) ?ys"
    using xs(3) ps by (intro sorted_no_zeros_step) simp_all
  moreover have "\<forall>x\<in>set ?ys. 10 ^ (Suc m - 1) \<le> x \<and> x < 10 ^ Suc m \<and>
        (\<forall>i<Suc m. 1 \<le> decimal_digit x i \<and> decimal_digit x i \<le> 9)"
    using no_zeros_step_member [OF _ ps] by simp
  ultimately show ?case by blast
qed

lemma digit_sum_loop_nonpos: "n \<le> 0 \<Longrightarrow> digit_sum_loop n acc = acc"
  by (subst digit_sum_loop.simps) simp

lemma digit_sum_loop_pos:
  "0 < n \<Longrightarrow> digit_sum_loop n acc = digit_sum_loop (n div 10) (acc + n mod 10)"
  by (subst digit_sum_loop.simps) simp

lemma decimal_digit_zero: "decimal_digit 0 i = 0"
  by (simp add: decimal_digit_def)

lemma decimal_digit_0: "decimal_digit x 0 = x mod 10"
  by (simp add: decimal_digit_def)

lemma decimal_digit_div10: "decimal_digit (x div 10) i = decimal_digit x (Suc i)"
proof -
  have "x div (10 * 10 ^ i) = x div 10 div 10 ^ i"
    by (rule zdiv_zmult2_eq) simp
  then show ?thesis by (simp add: decimal_digit_def)
qed

lemma digit_sum_loop_digits:
  "0 \<le> x \<Longrightarrow> x < 10 ^ k \<Longrightarrow> digit_sum_loop x acc = acc + (\<Sum>i<k. decimal_digit x i)"
proof (induction k arbitrary: x acc)
  case 0
  then have "x = 0" by simp
  then show ?case by (simp add: digit_sum_loop_nonpos)
next
  case (Suc k)
  show ?case
  proof (cases "x = 0")
    case True
    then show ?thesis by (simp add: digit_sum_loop_nonpos decimal_digit_zero)
  next
    case False
    with Suc.prems have pos: "0 < x" by simp
    from Suc.prems have "0 \<le> x div 10" "x div 10 < 10 ^ k"
      by (simp_all add: div_less_iff_less_mult pos_imp_zdiv_nonneg_iff)
    from Suc.IH [OF this]
    have "digit_sum_loop (x div 10) (acc + x mod 10)
        = acc + x mod 10 + (\<Sum>i<k. decimal_digit (x div 10) i)" .
    also have "\<dots> = acc + (decimal_digit x 0 + (\<Sum>i<k. decimal_digit x (Suc i)))"
      by (simp only: decimal_digit_div10 decimal_digit_0 add.assoc)
    also have "decimal_digit x 0 + (\<Sum>i<k. decimal_digit x (Suc i)) = (\<Sum>i<Suc k. decimal_digit x i)"
      by (simp only: sum.lessThan_Suc_shift)
    finally show ?thesis
      by (simp only: digit_sum_loop_pos [OF pos])
  qed
qed

lemma nat_less_power10: "n < (10::nat) ^ n"
proof (induction n)
  case 0
  show ?case by simp
next
  case (Suc n)
  have "(1::nat) \<le> 10 ^ n" by simp
  with Suc show ?case by simp
qed

lemma int_less_power10: "int n < 10 ^ n"
  using nat_less_power10 [of n] by simp

text \<open>
  The positional digits below \<open>nat x\<close> are all the digits of a non-negative \<open>x\<close>: the
  positions beyond hold 0, and the digits below represent \<open>x\<close>. So \<open>decimal_digit_sum\<close>
  is the sum of the base-10 digits.
\<close>

lemma decimal_digit_beyond:
  assumes "0 \<le> x" "nat x \<le> i"
  shows "decimal_digit x i = 0"
proof -
  have "x = int (nat x)" using assms(1) by simp
  also have "\<dots> < 10 ^ nat x" by (rule int_less_power10)
  also have "\<dots> \<le> 10 ^ i" using assms(2) by (simp add: power_increasing)
  finally have "x div 10 ^ i = 0"
    using assms(1) by (simp add: div_pos_pos_trivial)
  then show ?thesis by (simp add: decimal_digit_def)
qed

lemma decimal_digits_value_mod:
  "(\<Sum>i<k. decimal_digit x i * 10 ^ i) = x mod 10 ^ k"
proof (induction k)
  case 0
  show ?case by simp
next
  case (Suc k)
  have "x mod (10 ^ k * 10) = 10 ^ k * (x div 10 ^ k mod 10) + x mod 10 ^ k"
    by (rule zmod_zmult2_eq) simp
  then have "x mod 10 ^ Suc k = x mod 10 ^ k + decimal_digit x k * 10 ^ k"
    by (simp add: decimal_digit_def mult.commute)
  with Suc show ?case by simp
qed

lemma decimal_digits_value:
  assumes "0 \<le> x"
  shows "(\<Sum>i<nat x. decimal_digit x i * 10 ^ i) = x"
proof -
  have "x = int (nat x)" using assms by simp
  also have "\<dots> < 10 ^ nat x" by (rule int_less_power10)
  finally have "x mod 10 ^ nat x = x"
    using assms by simp
  then show ?thesis by (simp only: decimal_digits_value_mod)
qed

lemma digit_sum_loop_eq_decimal_digit_sum:
  assumes "0 \<le> x"
  shows "digit_sum_loop x 0 = decimal_digit_sum x"
proof -
  have "x < 10 ^ nat x"
    using int_less_power10 [of "nat x"] assms by simp
  from digit_sum_loop_digits [OF assms this, of 0]
  show ?thesis
    by (simp add: decimal_digit_sum_def interv_sum_list_conv_sum_set_nat lessThan_atLeast0)
qed

lemma filter_numbers_by_digit_sum_eq:
  "filter_numbers_by_digit_sum numbers k = filter (\<lambda>num. digit_sum_loop num 0 = k) numbers"
proof -
  have "fold (\<lambda>num result. let digit_sum = digit_sum_loop num 0
             in if digit_sum = k then result @ [num] else result) numbers acc
      = acc @ filter (\<lambda>num. digit_sum_loop num 0 = k) numbers" for acc
    by (induction numbers arbitrary: acc) simp_all
  from this [of "[]"] show ?thesis
    by (simp add: filter_numbers_by_digit_sum_def)
qed

lemma no_zeros_invariant_int:
  assumes "1 \<le> n"
  shows "\<exists>xs. generate_n_digit_numbers_no_zeros_recursive n = Some xs \<and>
     length xs = 9 ^ nat n \<and> sorted_wrt (<) xs \<and>
     (\<forall>x\<in>set xs. 10 ^ (nat n - 1) \<le> x \<and> x < 10 ^ nat n \<and>
        (\<forall>i<nat n. 1 \<le> decimal_digit x i \<and> decimal_digit x i \<le> 9))"
proof -
  from assms have "1 \<le> nat n" "int (nat n) = n" by simp_all
  with no_zeros_invariant [of "nat n"] show ?thesis by simp
qed

lemma no_zeros_2:
  "generate_n_digit_numbers_no_zeros_recursive 2 =
     Some (concat (map (\<lambda>d. map (\<lambda>p. d * 10 + p) [1, 2, 3, 4, 5, 6, 7, 8, 9])
                    [1, 2, 3, 4, 5, 6, 7, 8, 9]))"
  by code_simp

text \<open>
  Claim C3. For every \<open>n \<ge> 1\<close> the call returns a strictly increasing list: each element
  is strictly less than the next. The model contains no sorting step.
\<close>

theorem no_zeros_strictly_increasing:
  "1 \<le> n \<Longrightarrow>
     \<exists>xs. generate_n_digit_numbers_no_zeros_recursive n = Some xs \<and> sorted_wrt (<) xs"
  using no_zeros_invariant_int [of n] by blast

theorem no_zeros_strictly_increasing_witness:
  "(1::int) \<le> 2 \<and>
   sorted_wrt (<) (concat (map (\<lambda>d. map (\<lambda>p. d * 10 + p) [1, 2, 3, 4, 5, 6, 7, 8, 9])
                    [1, 2, 3, 4, 5, 6, 7, 8, 9::int]))"
proof -
  have "(1::int) \<le> 2" by simp
  from no_zeros_strictly_increasing [OF this] obtain xs where
    "generate_n_digit_numbers_no_zeros_recursive 2 = Some xs" "sorted_wrt (<) xs"
    by blast
  then show ?thesis
    unfolding no_zeros_2 by simp
qed

text \<open>
  Claim C4. For every \<open>n \<ge> 1\<close> the call returns exactly \<open>9 ^ n\<close> numbers, each at least
  \<open>10 ^ (n - 1)\<close> and below \<open>10 ^ n\<close> with none of its \<open>n\<close> decimal digits equal to 0; for
  \<open>n = 0\<close> it returns the empty list, and for \<open>n = 1\<close> the list \<open>[1, ..., 9]\<close>.
\<close>

theorem no_zeros_count_range_digits:
  "(1 \<le> n \<longrightarrow>
      (\<exists>xs. generate_n_digit_numbers_no_zeros_recursive n = Some xs \<and>
         length xs = 9 ^ nat n \<and>
         (\<forall>num\<in>set xs. 10 ^ (nat n - 1) \<le> num \<and> num < 10 ^ nat n \<and>
            (\<forall>i<nat n. decimal_digit num i \<noteq> 0)))) \<and>
   generate_n_digit_numbers_no_zeros_recursive 0 = Some [] \<and>
   generate_n_digit_numbers_no_zeros_recursive 1 = Some [1, 2, 3, 4, 5, 6, 7, 8, 9]"
proof (intro conjI impI)
  assume "1 \<le> n"
  from no_zeros_invariant_int [OF this] obtain xs where
    xs: "generate_n_digit_numbers_no_zeros_recursive n = Some xs" "length xs = 9 ^ nat n"
    and mem: "\<forall>x\<in>set xs. 10 ^ (nat n - 1) \<le> x \<and> x < 10 ^ nat n \<and>
        (\<forall>i<nat n. 1 \<le> decimal_digit x i \<and> decimal_digit x i \<le> 9)"
    by blast
  have "\<forall>num\<in>set xs. 10 ^ (nat n - 1) \<le> num \<and> num < 10 ^ nat n \<and>
            (\<forall>i<nat n. decimal_digit num i \<noteq> 0)"
    using mem by fastforce
  with xs show "\<exists>xs. generate_n_digit_numbers_no_zeros_recursive n = Some xs \<and>
         length xs = 9 ^ nat n \<and>
         (\<forall>num\<in>set xs. 10 ^ (nat n - 1) \<le> num \<and> num < 10 ^ nat n \<and>
            (\<forall>i<nat n. decimal_digit num i \<noteq> 0))"
    by blast
next
  show "generate_n_digit_numbers_no_zeros_recursive 0 = Some []"
    by (rule no_zeros_0)
next
  show "generate_n_digit_numbers_no_zeros_recursive 1 = Some [1, 2, 3, 4, 5, 6, 7, 8, 9]"
    by (rule no_zeros_1)
qed

theorem no_zeros_count_range_digits_witness:
  "(1::int) \<le> 2 \<and>
   (\<exists>xs. generate_n_digit_numbers_no_zeros_recursive 2 = Some xs \<and> length xs = 81 \<and>
      37 \<in> set xs \<and> (10::int) ^ (nat 2 - 1) \<le> 37 \<and> (37::int) < 10 ^ nat 2 \<and>
      decimal_digit 37 0 = 7 \<and> decimal_digit 37 1 = 3)"
proof -
  have "(1::int) \<le> 2" by simp
  with no_zeros_count_range_digits [of 2] obtain xs where
    xs: "generate_n_digit_numbers_no_zeros_recursive 2 = Some xs" "length xs = 9 ^ nat 2"
    by blast
  from xs(1) have "37 \<in> set xs" unfolding no_zeros_2 by auto
  moreover have "decimal_digit 37 0 = 7" "decimal_digit 37 1 = 3"
    by (simp_all add: decimal_digit_def)
  ultimately show ?thesis using xs by simp
qed


lemma sum_digits_bounds:
  assumes "\<forall>i<m. 1 \<le> decimal_digit x i \<and> decimal_digit x i \<le> 9"
  shows "int m \<le> (\<Sum>i<m. decimal_digit x i) \<and> (\<Sum>i<m. decimal_digit x i) \<le> 9 * int m"
proof -
  have "of_nat (card {..<m}) * 1 \<le> (\<Sum>i<m. decimal_digit x i)"
    by (rule sum_bounded_below) (use assms in simp)
  moreover have "(\<Sum>i<m. decimal_digit x i) \<le> of_nat (card {..<m}) * 9"
    by (rule sum_bounded_above) (use assms in simp)
  ultimately show ?thesis by simp
qed

lemma no_zeros_digit_sum_bounds:
  assumes "1 \<le> n" "generate_n_digit_numbers_no_zeros_recursive n = Some xs" "x \<in> set xs"
  shows "n \<le> digit_sum_loop x 0 \<and> digit_sum_loop x 0 \<le> 9 * n"
proof -
  from no_zeros_invariant_int [OF assms(1)] assms(2,3)
  have lo: "10 ^ (nat n - 1) \<le> x" and hi: "x < 10 ^ nat n"
    and digits: "\<forall>i<nat n. 1 \<le> decimal_digit x i \<and> decimal_digit x i \<le> 9"
    by auto
  have "(0::int) \<le> 10 ^ (nat n - 1)" by simp
  with lo have "0 \<le> x" by linarith
  from digit_sum_loop_digits [OF this hi, of 0]
  have "digit_sum_loop x 0 = (\<Sum>i<nat n. decimal_digit x i)" by simp
  with sum_digits_bounds [OF digits] assms(1) show ?thesis by simp
qed

lemma summing_to_k_empty:
  assumes "1 \<le> n" "k < n \<or> 9 * n < k"
  shows "generate_n_digit_numbers_summing_to_k n k = Some []"
proof -
  from no_zeros_invariant_int [OF assms(1)] obtain xs where
    xs: "generate_n_digit_numbers_no_zeros_recursive n = Some xs" by blast
  have "digit_sum_loop x 0 \<noteq> k" if "x \<in> set xs" for x
    using no_zeros_digit_sum_bounds [OF assms(1) xs that] assms(2) by auto
  then have "filter_numbers_by_digit_sum xs k = []"
    by (simp add: filter_numbers_by_digit_sum_eq filter_empty_conv)
  then show ?thesis
    by (simp add: generate_n_digit_numbers_summing_to_k_def xs)
qed

lemma summing_to_k_0: "generate_n_digit_numbers_summing_to_k 0 k = Some []"
  by (simp add: generate_n_digit_numbers_summing_to_k_def no_zeros_0
      filter_numbers_by_digit_sum_def)

text \<open>
  Claim C5. On a list of non-negative integers the filter returns exactly the elements
  whose base-10 digit sum is \<open>k\<close>, in their original order, so the result is a
  subsequence of the input. The digit sum of 0 is 0, and 0 is kept exactly when it occurs
  in the input and \<open>k = 0\<close>.
\<close>

theorem filter_numbers_by_digit_sum_correct:
  "(\<forall>x\<in>set numbers. 0 \<le> x) \<longrightarrow>
     filter_numbers_by_digit_sum numbers k = filter (\<lambda>num. decimal_digit_sum num = k) numbers \<and>
     subseq (filter_numbers_by_digit_sum numbers k) numbers \<and>
     decimal_digit_sum 0 = 0 \<and>
     (0 \<in> set (filter_numbers_by_digit_sum numbers k) \<longleftrightarrow> 0 \<in> set numbers \<and> k = 0)"
proof
  assume nonneg: "\<forall>x\<in>set numbers. 0 \<le> x"
  have eq: "filter_numbers_by_digit_sum numbers k = filter (\<lambda>num. decimal_digit_sum num = k) numbers"
    unfolding filter_numbers_by_digit_sum_eq
    by (rule filter_cong) (use nonneg in \<open>simp_all add: digit_sum_loop_eq_decimal_digit_sum\<close>)
  have zero: "decimal_digit_sum 0 = 0"
    by (simp add: decimal_digit_sum_def)
  have "subseq (filter_numbers_by_digit_sum numbers k) numbers"
    unfolding eq by (rule subseq_filter_left)
  moreover have "0 \<in> set (filter_numbers_by_digit_sum numbers k) \<longleftrightarrow> 0 \<in> set numbers \<and> k = 0"
    unfolding eq using zero by auto
  ultimately show "filter_numbers_by_digit_sum numbers k = filter (\<lambda>num. decimal_digit_sum num = k) numbers \<and>
     subseq (filter_numbers_by_digit_sum numbers k) numbers \<and>
     decimal_digit_sum 0 = 0 \<and>
     (0 \<in> set (filter_numbers_by_digit_sum numbers k) \<longleftrightarrow> 0 \<in> set numbers \<and> k = 0)"
    using eq zero by blast
qed

theorem filter_numbers_by_digit_sum_correct_witness:
  "list_all (\<lambda>x. 0 \<le> x) [0, 9, 18, 5, 900, 27::int] \<and>
   filter_numbers_by_digit_sum [0, 9, 18, 5, 900, 27] 9 = [9, 18, 900, 27] \<and>
   filter (\<lambda>num. decimal_digit_sum num = 9) [0, 9, 18, 5, 900, 27] = [9, 18, 900, 27] \<and>
   subseq [9, 18, 900, 27] [0, 9, 18, 5, 900, 27::int]"
proof -
  have h: "\<forall>x\<in>set [0, 9, 18, 5, 900, 27::int]. 0 \<le> x" by simp
  have eval: "filter_numbers_by_digit_sum [0, 9, 18, 5, 900, 27] 9 = [9, 18, 900, 27]"
    by code_simp
  from filter_numbers_by_digit_sum_correct [of "[0, 9, 18, 5, 900, 27]" 9] h
  have "filter_numbers_by_digit_sum [0, 9, 18, 5, 900, 27] 9
          = filter (\<lambda>num. decimal_digit_sum num = 9) [0, 9, 18, 5, 900, 27]"
    and "subseq (filter_numbers_by_digit_sum [0, 9, 18, 5, 900, 27] 9) [0, 9, 18, 5, 900, 27]"
    by blast+
  with h eval show ?thesis by (simp add: list_all_iff)
qed

text \<open>
  Claim C6. The composition returns the empty list, as an ordinary result, for every
  \<open>n \<ge> 1\<close> with \<open>k = 0\<close>, for every \<open>n \<ge> 0\<close> with \<open>k > 9 * n\<close>, and for \<open>n = 0\<close> with
  every \<open>k\<close>.
\<close>

theorem summing_to_k_impossible_is_empty:
  "(1 \<le> n \<longrightarrow> generate_n_digit_numbers_summing_to_k n 0 = Some []) \<and>
   (0 \<le> n \<and> 9 * n < k \<longrightarrow> generate_n_digit_numbers_summing_to_k n k = Some []) \<and>
   generate_n_digit_numbers_summing_to_k 0 k = Some []"
proof (intro conjI impI)
  assume "1 \<le> n"
  then show "generate_n_digit_numbers_summing_to_k n 0 = Some []"
    by (intro summing_to_k_empty) simp_all
next
  assume "0 \<le> n \<and> 9 * n < k"
  then consider "n = 0" | "1 \<le> n" "9 * n < k" by fastforce
  then show "generate_n_digit_numbers_summing_to_k n k = Some []"
  proof cases
    case 1
    then show ?thesis by (simp add: summing_to_k_0)
  next
    case 2
    then show ?thesis by (intro summing_to_k_empty) simp_all
  qed
next
  show "generate_n_digit_numbers_summing_to_k 0 k = Some []"
    by (rule summing_to_k_0)
qed

theorem summing_to_k_impossible_is_empty_witness:
  "(1::int) \<le> 2 \<and> generate_n_digit_numbers_summing_to_k 2 0 = Some [] \<and>
   (0::int) \<le> 2 \<and> (9::int) * 2 < 19 \<and> generate_n_digit_numbers_summing_to_k 2 19 = Some [] \<and>
   generate_n_digit_numbers_summing_to_k 0 19 = Some [] \<and>
   generate_n_digit_numbers_summing_to_k 2 18 = Some [99]"
proof -
  have "generate_n_digit_numbers_summing_to_k 2 18 = Some [99]" by code_simp
  with summing_to_k_impossible_is_empty [of 2 19] summing_to_k_impossible_is_empty [of 2 0]
  show ?thesis by simp
qed

section \<open>Permutations\<close>

lemma slice_to_nat: "slice_to word (int i) = take i word"
  by (simp add: slice_to_def)

lemma slice_from_nat: "slice_from word (int i) = drop i word"
  by (simp add: slice_from_def)

lemma interpolate_eq:
  "interpolate ch word = map (\<lambda>i. take i word @ ch @ drop i word) [0 ..< length word + 1]"
  by (simp only: interpolate_def slice_to_nat slice_from_nat)

lemma length_interpolate: "length (interpolate ch word) = length word + 1"
  by (simp add: interpolate_eq)

lemma nth_interpolate:
  "i \<le> length word \<Longrightarrow> interpolate ch word ! i = take i word @ ch @ drop i word"
proof -
  assume "i \<le> length word"
  then have "i < length [0 ..< length word + 1]" by simp
  then have "map (\<lambda>i. take i word @ ch @ drop i word) [0 ..< length word + 1] ! i
      = take ([0 ..< length word + 1] ! i) word @ ch @ drop ([0 ..< length word + 1] ! i) word"
    by (rule nth_map)
  moreover have "[0 ..< length word + 1] ! i = i"
    using \<open>i \<le> length word\<close> by (simp del: upt_Suc)
  ultimately show ?thesis by (simp only: interpolate_eq)
qed

lemma set_interpolate:
  "set (interpolate ch word) = {take i word @ ch @ drop i word | i. i \<le> length word}"
  by (auto simp: interpolate_eq simp del: upt_Suc)

lemma set_interpolate_all:
  "set (interpolate_all ch perms) =
     {take i p @ ch @ drop i p | p i. p \<in> set perms \<and> i \<le> length p}"
  by (auto simp: interpolate_all_def set_interpolate)

lemma length_interpolate_all:
  "\<forall>p\<in>set perms. length p = L \<Longrightarrow> length (interpolate_all ch perms) = (L + 1) * length perms"
  by (induction perms) (simp_all add: interpolate_all_def length_interpolate)

lemma mset_interpolate_all:
  assumes "q \<in> set (interpolate_all ch perms)"
  shows "\<exists>p\<in>set perms. mset q = mset ch + mset p"
proof -
  from assms obtain p i where pi: "p \<in> set perms" "q = take i p @ ch @ drop i p"
    by (auto simp: set_interpolate_all)
  have "mset (take i p @ ch @ drop i p) = mset ch + (mset (take i p) + mset (drop i p))"
    by (simp add: ac_simps)
  also have "mset (take i p) + mset (drop i p) = mset p"
    by (simp only: mset_append [symmetric] append_take_drop_id)
  finally have "mset q = mset ch + mset p"
    by (simp only: pi(2))
  with pi(1) show ?thesis by blast
qed

lemma interpolate_all_complete:
  assumes "set perms = {p. mset p = mset ws}"
  shows "set (interpolate_all [c] perms) = {q. mset q = mset (ws @ [c])}"
proof (intro set_eqI iffI)
  fix q assume "q \<in> set (interpolate_all [c] perms)"
  from mset_interpolate_all [OF this] assms
  show "q \<in> {q. mset q = mset (ws @ [c])}" by auto
next
  fix q assume "q \<in> {q. mset q = mset (ws @ [c])}"
  then have q: "mset q = add_mset c (mset ws)" by simp
  then have "c \<in> set q"
    by (metis mset_eq_setD list.set_intros(1) mset.simps(2))
  then obtain xs ys where split: "q = xs @ c # ys"
    by (auto dest: split_list)
  with q have "mset (xs @ ys) = mset ws" by simp
  with assms have "xs @ ys \<in> set perms" by simp
  moreover have "q = take (length xs) (xs @ ys) @ [c] @ drop (length xs) (xs @ ys)"
    by (simp add: split)
  moreover have "length xs \<le> length (xs @ ys)" by simp
  ultimately show "q \<in> set (interpolate_all [c] perms)"
    unfolding set_interpolate_all by blast
qed

lemma takeWhile_insert:
  "c \<notin> set p \<Longrightarrow> takeWhile (\<lambda>x. x \<noteq> c) (take i p @ [c] @ drop i p) = take i p"
proof -
  assume "c \<notin> set p"
  then have "\<forall>x\<in>set (take i p). x \<noteq> c"
    by (auto dest: in_set_takeD)
  then show ?thesis by (simp add: takeWhile_append2)
qed

lemma filter_insert:
  "c \<notin> set p \<Longrightarrow> filter (\<lambda>x. x \<noteq> c) (take i p @ [c] @ drop i p) = p"
proof -
  assume "c \<notin> set p"
  then have "filter (\<lambda>x. x \<noteq> c) p = p" by (auto simp: filter_id_conv)
  then have "filter (\<lambda>x. x \<noteq> c) (take i p @ drop i p) = p" by simp
  then show ?thesis by (simp del: append_take_drop_id)
qed

lemma distinct_interpolate:
  assumes "c \<notin> set p"
  shows "distinct (interpolate [c] p)"
proof -
  have "inj_on (\<lambda>i. take i p @ [c] @ drop i p) (set [0 ..< length p + 1])"
  proof (rule inj_onI)
    fix i j
    assume i: "i \<in> set [0 ..< length p + 1]" and j: "j \<in> set [0 ..< length p + 1]"
      and eq: "take i p @ [c] @ drop i p = take j p @ [c] @ drop j p"
    from eq have "takeWhile (\<lambda>x. x \<noteq> c) (take i p @ [c] @ drop i p)
        = takeWhile (\<lambda>x. x \<noteq> c) (take j p @ [c] @ drop j p)" by simp
    then have "take i p = take j p"
      by (simp only: takeWhile_insert [OF assms])
    then have "length (take i p) = length (take j p)" by simp
    with i j show "i = j" by (auto simp: min_def simp del: upt_Suc split: if_splits)
  qed
  then show ?thesis
    unfolding interpolate_eq by (simp add: distinct_map del: upt_Suc)
qed

lemma distinct_interpolate_all:
  assumes "distinct perms" "\<forall>p\<in>set perms. c \<notin> set p"
  shows "distinct (interpolate_all [c] perms)"
  unfolding interpolate_all_def
proof (rule distinct_concat)
  have "inj_on (interpolate [c]) (set perms)"
  proof (rule inj_onI)
    fix p p' assume "interpolate [c] p = interpolate [c] p'"
    then have "interpolate [c] p ! 0 = interpolate [c] p' ! 0" by simp
    then show "p = p'" by (simp add: nth_interpolate)
  qed
  with assms(1) show "distinct (map (interpolate [c]) perms)"
    by (simp add: distinct_map)
next
  fix ys assume "ys \<in> set (map (interpolate [c]) perms)"
  with assms(2) show "distinct ys"
    by (auto intro: distinct_interpolate)
next
  fix ys zs
  assume "ys \<in> set (map (interpolate [c]) perms)" "zs \<in> set (map (interpolate [c]) perms)"
    "ys \<noteq> zs"
  then obtain p p' where p: "p \<in> set perms" "ys = interpolate [c] p"
    and p': "p' \<in> set perms" "zs = interpolate [c] p'" and ne: "p \<noteq> p'"
    by auto
  show "set ys \<inter> set zs = {}"
  proof (rule ccontr)
    assume "set ys \<inter> set zs \<noteq> {}"
    then obtain q where "q \<in> set ys" "q \<in> set zs" by blast
    then obtain i j where "q = take i p @ [c] @ drop i p" "q = take j p' @ [c] @ drop j p'"
      unfolding p(2) p'(2) set_interpolate by blast
    then have eq: "filter (\<lambda>x. x \<noteq> c) (take i p @ [c] @ drop i p)
        = filter (\<lambda>x. x \<noteq> c) (take j p' @ [c] @ drop j p')" by simp
    have "c \<notin> set p" "c \<notin> set p'" using assms(2) p(1) p'(1) by auto
    from eq have "p = p'"
      unfolding filter_insert [OF \<open>c \<notin> set p\<close>] filter_insert [OF \<open>c \<notin> set p'\<close>] .
    with ne show False by contradiction
  qed
qed

lemma generate_permutations_0: "generate_permutations word 0 = Some (Inr [word])"
  by (subst generate_permutations.simps) simp

lemma index_last: "index (ws @ [c]) (int (length ws)) = Inr [c]"
  by (simp add: index_def)

lemma curr_word_last:
  "slice_to (ws @ [c]) (int (length ws)) @ slice_from (ws @ [c]) (int (length ws) + 1) = ws"
proof -
  have "int (length ws) + 1 = int (Suc (length ws))" by simp
  then have "slice_from (ws @ [c]) (int (length ws) + 1) = []"
    by (simp only: slice_from_nat) simp
  then show ?thesis by (simp add: slice_to_nat)
qed

lemma generate_permutations_snoc:
  assumes "ws \<noteq> []"
  shows "generate_permutations (ws @ [c]) (int (length ws)) =
     generate_permutations ws (int (length ws) - 1) \<bind>
       (\<lambda>r. case r of Inl e \<Rightarrow> Some (Inl e)
                    | Inr perms \<Rightarrow> Some (Inr (interpolate_all [c] perms)))"
proof -
  from assms have "int (length ws) \<noteq> 0" by simp
  then show ?thesis
    by (subst generate_permutations.simps)
      (simp only: if_False Let_def curr_word_last index_last sum.case)
qed

lemma generate_permutations_invariant:
  assumes "word \<noteq> []"
  shows "\<exists>perms. generate_permutations word (int (length word) - 1) = Some (Inr perms) \<and>
     length perms = fact (length word) \<and>
     set perms = {p. mset p = mset word} \<and>
     (distinct word \<longrightarrow> distinct perms)"
  using assms
proof (induction word rule: rev_nonempty_induct)
  case (single c)
  have "{p. mset p = {#c#}} = {[c]}"
    by (auto simp: mset_single_iff_right)
  then show ?case
    by (simp add: generate_permutations_0)
next
  case (snoc c ws)
  then obtain perms where perms:
    "generate_permutations ws (int (length ws) - 1) = Some (Inr perms)"
    "length perms = fact (length ws)" "set perms = {p. mset p = mset ws}"
    "distinct ws \<longrightarrow> distinct perms"
    by blast
  let ?qs = "interpolate_all [c] perms"
  have run: "generate_permutations (ws @ [c]) (int (length (ws @ [c])) - 1) = Some (Inr ?qs)"
    using generate_permutations_snoc [OF snoc.hyps, of c] by (simp add: perms(1))
  have "\<forall>p\<in>set perms. length p = length ws"
    using perms(3) by (auto dest: mset_eq_length)
  from length_interpolate_all [OF this, of "[c]"]
  have len: "length ?qs = fact (length (ws @ [c]))"
    by (simp add: perms(2))
  have all: "set ?qs = {p. mset p = mset (ws @ [c])}"
    using perms(3) by (rule interpolate_all_complete)
  have dist: "distinct ?qs" if "distinct (ws @ [c])"
  proof -
    from that have "distinct ws" "c \<notin> set ws" by simp_all
    with perms(3,4) have "distinct perms" "\<forall>p\<in>set perms. c \<notin> set p"
      by (auto dest: mset_eq_setD)
    then show ?thesis by (rule distinct_interpolate_all)
  qed
  from run len all dist show ?case by blast
qed

text \<open>
  Claim C7. For every string \<open>ch\<close> (a character is a string of length one) and every word
  \<open>w\<close>, \<open>interpolate\<close> returns exactly \<open>len(w) + 1\<close> words; the word at position \<open>i\<close> is \<open>w\<close>
  with \<open>ch\<close> inserted immediately before index \<open>i\<close>, so the first has \<open>ch\<close> at the start
  and the last has it at the end; and \<open>interpolate("x", "ab")\<close> is
  \<open>["xab", "axb", "abx"]\<close>.
\<close>

theorem interpolate_positions:
  "length (interpolate ch w) = length w + 1 \<and>
   (\<forall>i\<le>length w. interpolate ch w ! i = take i w @ ch @ drop i w) \<and>
   hd (interpolate ch w) = ch @ w \<and>
   last (interpolate ch w) = w @ ch \<and>
   interpolate ''x'' ''ab'' = [''xab'', ''axb'', ''abx'']"
proof (intro conjI allI impI)
  show "length (interpolate ch w) = length w + 1"
    by (rule length_interpolate)
next
  fix i assume "i \<le> length w"
  then show "interpolate ch w ! i = take i w @ ch @ drop i w"
    by (rule nth_interpolate)
next
  have "interpolate ch w \<noteq> []"
    using length_interpolate [of ch w] by auto
  then have "hd (interpolate ch w) = interpolate ch w ! 0"
    by (rule hd_conv_nth)
  then show "hd (interpolate ch w) = ch @ w"
    by (simp add: nth_interpolate)
next
  have ne: "interpolate ch w \<noteq> []"
    using length_interpolate [of ch w] by auto
  have "last (interpolate ch w) = interpolate ch w ! (length (interpolate ch w) - 1)"
    using ne by (rule last_conv_nth)
  then show "last (interpolate ch w) = w @ ch"
    by (simp add: length_interpolate nth_interpolate)
next
  show "interpolate ''x'' ''ab'' = [''xab'', ''axb'', ''abx'']"
    by code_simp
qed

theorem interpolate_positions_witness:
  "(1::nat) \<le> length ''ab'' \<and> length (interpolate ''x'' ''ab'') = 3 \<and>
   interpolate ''x'' ''ab'' ! 1 = ''axb''"
proof -
  have "(1::nat) \<le> length ''ab''" by simp
  with interpolate_positions [of "''x''" "''ab''"]
  have "length (interpolate ''x'' ''ab'') = length ''ab'' + 1"
    and "interpolate ''x'' ''ab'' ! 1 = take 1 ''ab'' @ ''x'' @ drop 1 ''ab''"
    by blast+
  then show ?thesis by simp
qed

text \<open>
  Claim C8. For every non-empty word of length \<open>L\<close>, called with \<open>pos = L - 1\<close>, the
  driver returns exactly \<open>L!\<close> results, duplicates counted; when the symbols of the word
  are pairwise distinct, the results are pairwise distinct and their set is the set of all
  orderings of those symbols. For \<open>"aa"\<close> with \<open>pos = 1\<close> the result is \<open>["aa", "aa"]\<close>,
  for \<open>"a"\<close> with \<open>pos = 0\<close> it is \<open>["a"]\<close>.
\<close>

theorem generate_permutations_count_and_orderings:
  "(word \<noteq> [] \<longrightarrow>
      (\<exists>perms. generate_permutations word (int (length word) - 1) = Some (Inr perms) \<and>
         length perms = fact (length word) \<and>
         (distinct word \<longrightarrow> distinct perms \<and> set perms = {p. mset p = mset word}))) \<and>
   generate_permutations ''aa'' 1 = Some (Inr [''aa'', ''aa'']) \<and>
   generate_permutations ''a'' 0 = Some (Inr [''a''])"
proof (intro conjI impI)
  assume "word \<noteq> []"
  from generate_permutations_invariant [OF this]
  show "\<exists>perms. generate_permutations word (int (length word) - 1) = Some (Inr perms) \<and>
         length perms = fact (length word) \<and>
         (distinct word \<longrightarrow> distinct perms \<and> set perms = {p. mset p = mset word})"
    by blast
next
  show "generate_permutations ''aa'' 1 = Some (Inr [''aa'', ''aa''])"
    by code_simp
next
  show "generate_permutations ''a'' 0 = Some (Inr [''a''])"
    by (rule generate_permutations_0)
qed

theorem generate_permutations_count_and_orderings_witness:
  "''abc'' \<noteq> [] \<and> distinct ''abc'' \<and>
   generate_permutations ''abc'' (int (length ''abc'') - 1) =
     Some (Inr [''cba'', ''bca'', ''bac'', ''cab'', ''acb'', ''abc'']) \<and>
   length [''cba'', ''bca'', ''bac'', ''cab'', ''acb'', ''abc''] = (fact (length ''abc'') :: nat) \<and>
   distinct [''cba'', ''bca'', ''bac'', ''cab'', ''acb'', ''abc''] \<and>
   set [''cba'', ''bca'', ''bac'', ''cab'', ''acb'', ''abc''] = {p. mset p = mset ''abc''}"
proof -
  have eval: "generate_permutations ''abc'' (int (length ''abc'') - 1) =
     Some (Inr [''cba'', ''bca'', ''bac'', ''cab'', ''acb'', ''abc''])"
    by code_simp
  have ne: "''abc'' \<noteq> []" and d: "distinct ''abc''" by simp_all
  from generate_permutations_count_and_orderings [of "''abc''"] ne d obtain perms where
    perms: "generate_permutations ''abc'' (int (length ''abc'') - 1) = Some (Inr perms)"
      "length perms = fact (length ''abc'')" "distinct perms"
      "set perms = {p. mset p = mset ''abc''}"
    by blast
  from perms(1) eval have "perms = [''cba'', ''bca'', ''bac'', ''cab'', ''acb'', ''abc'']"
    by simp
  with perms eval ne d show ?thesis by blast
qed

text \<open>
  Claim C10. For every non-empty word, repeated symbols or not, called with
  \<open>pos = L - 1\<close>, every string of the result has the length of the word and the same
  multiset of characters: it is a rearrangement of the word.
\<close>

theorem generate_permutations_rearrangements:
  "word \<noteq> [] \<Longrightarrow>
     \<exists>perms. generate_permutations word (int (length word) - 1) = Some (Inr perms) \<and>
       (\<forall>p\<in>set perms. length p = length word \<and> mset p = mset word)"
proof -
  assume "word \<noteq> []"
  from generate_permutations_invariant [OF this] obtain perms where
    perms: "generate_permutations word (int (length word) - 1) = Some (Inr perms)"
      "set perms = {p. mset p = mset word}"
    by blast
  from perms(2) have "\<forall>p\<in>set perms. length p = length word \<and> mset p = mset word"
    by (auto dest: mset_eq_length)
  with perms(1) show ?thesis by blast
qed

theorem generate_permutations_rearrangements_witness:
  "''aab'' \<noteq> [] \<and>
   generate_permutations ''aab'' (int (length ''aab'') - 1) =
     Some (Inr [''baa'', ''aba'', ''aab'', ''baa'', ''aba'', ''aab'']) \<and>
   list_all (\<lambda>p. length p = length ''aab'' \<and> mset p = mset ''aab'')
     [''baa'', ''aba'', ''aab'', ''baa'', ''aba'', ''aab'']"
proof -
  have eval: "generate_permutations ''aab'' (int (length ''aab'') - 1) =
     Some (Inr [''baa'', ''aba'', ''aab'', ''baa'', ''aba'', ''aab''])"
    by code_simp
  have ne: "''aab'' \<noteq> []" by simp
  from generate_permutations_rearrangements [OF ne] obtain perms where
    perms: "generate_permutations ''aab'' (int (length ''aab'') - 1) = Some (Inr perms)"
      "\<forall>p\<in>set perms. length p = length ''aab'' \<and> mset p = mset ''aab''"
    by blast
  from perms(1) eval have "perms = [''baa'', ''aba'', ''aab'', ''baa'', ''aba'', ''aab'']"
    by simp
  with perms(2) eval ne show ?thesis by (simp only: list_all_iff) blast
qed

section \<open>Termination and recursion depth\<close>

text \<open>
  On a negative argument no call returns: the base case is never reached. This is what
  the value \<open>None\<close> of the three partial functions records.
\<close>

lemma admissible_None_below:
  "option.admissible (\<lambda>f. \<forall>x. D x \<longrightarrow> f x = None)"
  by (rule ccpo.admissibleI) (auto simp: fun_lub_def flat_lub_def)

lemma generate_binary_nums_negative: "n < 0 \<Longrightarrow> generate_binary_nums n = None"
proof -
  have "\<forall>n. n < 0 \<longrightarrow> generate_binary_nums n = None"
    by (rule generate_binary_nums.fixp_induct) (auto intro: admissible_None_below)
  then show "n < 0 \<Longrightarrow> generate_binary_nums n = None" by blast
qed

lemma no_zeros_negative:
  "n < 0 \<Longrightarrow> generate_n_digit_numbers_no_zeros_recursive n = None"
proof -
  have "\<forall>n. n < 0 \<longrightarrow> generate_n_digit_numbers_no_zeros_recursive n = None"
    by (rule generate_n_digit_numbers_no_zeros_recursive.fixp_induct)
      (auto intro: admissible_None_below)
  then show "n < 0 \<Longrightarrow> generate_n_digit_numbers_no_zeros_recursive n = None" by blast
qed

lemma generate_permutations_negative:
  "pos < 0 \<Longrightarrow> generate_permutations word pos = None"
proof -
  have adm: "option.admissible (\<lambda>f. \<forall>word pos. pos < 0 \<longrightarrow> curry f word pos = None)"
    using admissible_None_below [of "\<lambda>x. snd x < 0"] by (simp add: curry_def)
  have "\<forall>word pos. pos < 0 \<longrightarrow> generate_permutations word pos = None"
    by (rule generate_permutations.fixp_induct [where P = "\<lambda>f. \<forall>word pos. pos < 0 \<longrightarrow> f word pos = None"])
      (use adm in \<open>auto simp: Let_def\<close>)
  then show "pos < 0 \<Longrightarrow> generate_permutations word pos = None" by blast
qed

text \<open>
  The budget counts nested calls exactly: a budget below the argument is not enough.
\<close>

lemma generate_binary_nums_within_short:
  "int depth < n \<Longrightarrow> generate_binary_nums_within depth n = None"
  by (induction depth arbitrary: n) simp_all

lemma no_zeros_within_short:
  "int depth + 1 < n \<Longrightarrow> generate_n_digit_numbers_no_zeros_recursive_within depth n = None"
  by (induction depth arbitrary: n) simp_all

lemma generate_permutations_within_short:
  "int depth < pos \<Longrightarrow> generate_permutations_within depth word pos = None"
  by (induction depth arbitrary: word pos) (simp_all add: Let_def)

lemma generate_binary_nums_within_nat:
  "generate_binary_nums_within m (int m) = generate_binary_nums (int m)"
proof (induction m)
  case 0
  show ?case by (simp add: generate_binary_nums_0)
next
  case (Suc m)
  have "int (Suc m) \<noteq> 0" "int (Suc m) - 1 = int m" by simp_all
  then have "generate_binary_nums_within (Suc m) (int (Suc m))
      = generate_binary_nums_within m (int m) \<bind> (\<lambda>S. Some (binary_step S))"
    by (simp only: generate_binary_nums_within.simps if_False)
  then show ?case
    by (simp only: Suc.IH generate_binary_nums_Suc)
qed

lemma no_zeros_within_nat:
  "generate_n_digit_numbers_no_zeros_recursive_within m (int m) =
     generate_n_digit_numbers_no_zeros_recursive (int m)"
proof (induction m)
  case 0
  show ?case by (simp add: no_zeros_0)
next
  case (Suc m)
  show ?case
  proof (cases "m = 0")
    case True
    then show ?thesis by (simp add: no_zeros_1)
  next
    case False
    then have n: "int (Suc m) \<noteq> 0" "int (Suc m) \<noteq> 1" "int (Suc m) - 1 = int m"
      "2 \<le> int (Suc m)" by simp_all
    have "generate_n_digit_numbers_no_zeros_recursive_within (Suc m) (int (Suc m))
        = generate_n_digit_numbers_no_zeros_recursive_within m (int m) \<bind>
            (\<lambda>prev. Some (no_zeros_step (int (Suc m)) prev))"
      by (simp only: generate_n_digit_numbers_no_zeros_recursive_within.simps n(1,2,3) if_False)
    then show ?thesis
      by (simp only: Suc.IH no_zeros_rec [OF n(4)] n(3))
  qed
qed

lemma generate_permutations_within_last:
  assumes "word \<noteq> []"
  shows "generate_permutations_within (length word - 1) word (int (length word) - 1) =
     generate_permutations word (int (length word) - 1)"
  using assms
proof (induction word rule: rev_nonempty_induct)
  case (single c)
  show ?case by (simp add: generate_permutations_0)
next
  case (snoc c ws)
  from snoc.hyps obtain k where k: "length ws = Suc k"
    by (cases ws) simp_all
  have pos: "int (Suc k) \<noteq> 0" "int (Suc k) - 1 = int (length ws) - 1" "int (Suc k) = int (length ws)"
    by (simp_all add: k)
  have "generate_permutations_within (Suc k) (ws @ [c]) (int (Suc k)) =
      generate_permutations_within k ws (int (length ws) - 1) \<bind>
        (\<lambda>r. case r of Inl e \<Rightarrow> Some (Inl e)
                     | Inr perms \<Rightarrow> Some (Inr (interpolate_all [c] perms)))"
  proof -
    have "int (length ws) \<noteq> 0" using snoc.hyps by simp
    then show ?thesis
      unfolding generate_permutations_within.simps
      by (simp only: pos(3) if_False Let_def curr_word_last index_last sum.case)
  qed
  also have "generate_permutations_within k ws (int (length ws) - 1)
      = generate_permutations ws (int (length ws) - 1)"
    using snoc.IH by (simp add: k)
  finally have "generate_permutations_within (Suc k) (ws @ [c]) (int (Suc k)) =
      generate_permutations (ws @ [c]) (int (length ws))"
    by (simp only: generate_permutations_snoc [OF snoc.hyps])
  then show ?case by (simp add: k)
qed

text \<open>
  Claim C9. Every generator returns on every well-formed input: \<open>generate_binary_nums\<close>
  and \<open>generate_n_digit_numbers_no_zeros_recursive\<close> for every \<open>n \<ge> 0\<close>, and
  \<open>generate_permutations\<close> for every non-empty word with \<open>pos = len(word) - 1\<close>. The
  recursion descends on \<open>n\<close> (or \<open>pos\<close>), and a budget of \<open>n\<close> (or \<open>pos\<close>) nested recursive
  calls is enough: under that budget the call returns the same result.
\<close>

theorem generators_terminate_within_depth:
  "(0 \<le> n \<longrightarrow>
      (\<exists>xs. generate_binary_nums n = Some xs \<and>
            generate_binary_nums_within (nat n) n = Some xs) \<and>
      (\<exists>ys. generate_n_digit_numbers_no_zeros_recursive n = Some ys \<and>
            generate_n_digit_numbers_no_zeros_recursive_within (nat n) n = Some ys)) \<and>
   (word \<noteq> [] \<longrightarrow>
      (\<exists>perms. generate_permutations word (int (length word) - 1) = Some (Inr perms) \<and>
         generate_permutations_within (length word - 1) word (int (length word) - 1)
           = Some (Inr perms)))"
proof (intro conjI impI)
  assume "0 \<le> n"
  then have n: "int (nat n) = n" by simp
  from generate_binary_nums_nat [of "nat n"] obtain xs where
    "generate_binary_nums (int (nat n)) = Some xs" by blast
  with generate_binary_nums_within_nat [of "nat n"]
  show "\<exists>xs. generate_binary_nums n = Some xs \<and> generate_binary_nums_within (nat n) n = Some xs"
    unfolding n by simp
next
  assume "0 \<le> n"
  then have n: "int (nat n) = n" by simp
  have "\<exists>ys. generate_n_digit_numbers_no_zeros_recursive n = Some ys"
  proof (cases "n = 0")
    case True
    then show ?thesis by (simp add: no_zeros_0)
  next
    case False
    with \<open>0 \<le> n\<close> have "1 \<le> n" by simp
    from no_zeros_invariant_int [OF this] show ?thesis by blast
  qed
  with no_zeros_within_nat [of "nat n"]
  show "\<exists>ys. generate_n_digit_numbers_no_zeros_recursive n = Some ys \<and>
            generate_n_digit_numbers_no_zeros_recursive_within (nat n) n = Some ys"
    unfolding n by auto
next
  assume ne: "word \<noteq> []"
  from generate_permutations_invariant [OF ne] obtain perms where
    "generate_permutations word (int (length word) - 1) = Some (Inr perms)" by blast
  with generate_permutations_within_last [OF ne]
  show "\<exists>perms. generate_permutations word (int (length word) - 1) = Some (Inr perms) \<and>
         generate_permutations_within (length word - 1) word (int (length word) - 1)
           = Some (Inr perms)"
    by simp
qed

theorem generators_terminate_within_depth_witness:
  "(0::int) \<le> 2 \<and> ''ab'' \<noteq> [] \<and>
   generate_binary_nums_within (nat 2) 2 = Some [''00'', ''01'', ''10'', ''11''] \<and>
   generate_binary_nums 2 = Some [''00'', ''01'', ''10'', ''11''] \<and>
   generate_n_digit_numbers_no_zeros_recursive 2 =
     generate_n_digit_numbers_no_zeros_recursive_within (nat 2) 2 \<and>
   generate_permutations_within (length ''ab'' - 1) ''ab'' (int (length ''ab'') - 1)
     = Some (Inr [''ba'', ''ab'']) \<and>
   generate_permutations ''ab'' (int (length ''ab'') - 1) = Some (Inr [''ba'', ''ab''])"
proof -
  have a: "generate_binary_nums_within (nat 2) 2 = Some [''00'', ''01'', ''10'', ''11'']"
    by code_simp
  have b: "generate_permutations_within (length ''ab'' - 1) ''ab'' (int (length ''ab'') - 1)
     = Some (Inr [''ba'', ''ab''])"
    by code_simp
  have h: "(0::int) \<le> 2" "''ab'' \<noteq> []" by simp_all
  from generators_terminate_within_depth [of 2 "''ab''"] h obtain xs ys perms where
    "generate_binary_nums 2 = Some xs" "generate_binary_nums_within (nat 2) 2 = Some xs"
    "generate_n_digit_numbers_no_zeros_recursive 2 = Some ys"
    "generate_n_digit_numbers_no_zeros_recursive_within (nat 2) 2 = Some ys"
    "generate_permutations ''ab'' (int (length ''ab'') - 1) = Some (Inr perms)"
    "generate_permutations_within (length ''ab'' - 1) ''ab'' (int (length ''ab'') - 1)
           = Some (Inr perms)"
    by blast
  with a b h show ?thesis by simp
qed

end
